theory Spec2Isabelle
  imports Main
begin

section \<open>Data model (types.ts and the state of the App component)\<close>

type_synonym blob = "nat list"

text \<open>\<open>ProcessedImage\<close> of types.ts; the field \<open>id\<close> is written \<open>id'\<close>.\<close>

record ProcessedImage =
  id' :: string
  originalName :: string
  quadrants :: "string list"

text \<open>
  \<open>FileWithPreview\<close> of types.ts: a browser \<open>File\<close> (its name and its bytes) with the
  optional preview URL. The optional \<open>status\<close> field is written once, in
  \<open>handleFileChange\<close>, and never read; it is left out.
\<close>

record FileWithPreview =
  name :: string
  bytes :: blob
  preview :: "string option"

datatype ProcessingStatus = IDLE | PROCESSING | COMPLETED | ERROR

text \<open>The four \<open>useState\<close> cells of \<open>App\<close>.\<close>

record AppState =
  files :: "FileWithPreview list"
  processed :: "ProcessedImage list"
  status :: ProcessingStatus
  progress :: nat

text \<open>
  What \<open>processImages\<close> does to the outside, in program order: the calls of the state
  setters, and the \<open>console.error\<close> of the catch block.
\<close>

datatype Effect =
    SetStatus ProcessingStatus
  | SetProcessed "ProcessedImage list"
  | SetProgress nat
  | ConsoleError string

fun applyEffect :: "AppState \<Rightarrow> Effect \<Rightarrow> AppState" where
  "applyEffect s (SetStatus v) = s\<lparr>status := v\<rparr>"
| "applyEffect s (SetProcessed v) = s\<lparr>processed := v\<rparr>"
| "applyEffect s (SetProgress v) = s\<lparr>progress := v\<rparr>"
| "applyEffect s (ConsoleError e) = s"

definition applyEffects :: "AppState \<Rightarrow> Effect list \<Rightarrow> AppState" where
  "applyEffects s es = foldl applyEffect s es"

text \<open>
  The changes of the run state that a list of effects causes, in order, each as the pair
  of the status before and the status after.
\<close>

fun transitions :: "AppState \<Rightarrow> Effect list \<Rightarrow> (ProcessingStatus \<times> ProcessingStatus) list" where
  "transitions s [] = []"
| "transitions s (e # es) =
     (if status (applyEffect s e) \<noteq> status s then [(status s, status (applyEffect s e))] else [])
     @ transitions (applyEffect s e) es"

section \<open>The progress expression in double arithmetic\<close>

text \<open>
  \<open>Math.round(((i + 1) / files.length) * 100)\<close> is computed on IEEE doubles. A positive
  double is written as a pair \<open>(m, k)\<close> standing for \<open>m / 2 ^ k\<close>. All values that occur
  here lie between \<open>0\<close> and \<open>100\<close>, far inside the normal range, so rounding a positive
  rational \<open>n / d\<close> to the nearest double means: scale it into \<open>[2 ^ 52, 2 ^ 53)\<close>, round
  to the nearest integer with ties to the even one, and scale back.
\<close>

type_synonym double = "nat \<times> nat"

definition rne :: "nat \<Rightarrow> nat \<Rightarrow> nat" where
  "rne n d =
     (let q = n div d; r = n mod d
      in if 2 * r < d then q
         else if d < 2 * r then q + 1
         else if even q then q else q + 1)"

function up_shift :: "nat \<Rightarrow> nat \<Rightarrow> nat \<Rightarrow> nat" where
  "up_shift n d k =
     (if n = 0 \<or> 2 ^ 52 * d \<le> n * 2 ^ k then k else up_shift n d (Suc k))"
  by pat_completeness auto
termination
proof (relation "measure (\<lambda>(n, d, k). 52 + d - k)")
  show "wf (measure (\<lambda>(n, d, k). 52 + d - k))" by simp
next
  fix n d k :: nat
  assume a: "\<not> (n = 0 \<or> 2 ^ 52 * d \<le> n * 2 ^ k)"
  have "k < 52 + d"
  proof (rule ccontr)
    assume "\<not> k < 52 + d"
    then have "(2::nat) ^ (52 + d) \<le> 2 ^ k" by (simp only: power_increasing not_less one_le_numeral)
    moreover have "d \<le> 2 ^ d" by (rule less_imp_le) simp
    then have "(2::nat) ^ 52 * d \<le> 2 ^ 52 * 2 ^ d" by (rule mult_le_mono2)
    then have "(2::nat) ^ 52 * d \<le> 2 ^ (52 + d)" by (simp only: power_add)
    ultimately have "(2::nat) ^ 52 * d \<le> 2 ^ k" by (rule order_trans [rotated])
    moreover from a have "1 \<le> n" by simp
    then have "1 * (2::nat) ^ k \<le> n * 2 ^ k" by (rule mult_le_mono1)
    then have "(2::nat) ^ k \<le> n * 2 ^ k" by (simp only: mult_1)
    ultimately have "(2::nat) ^ 52 * d \<le> n * 2 ^ k" by (rule order_trans)
    with a show False by blast
  qed
  then show "((n, d, Suc k), (n, d, k)) \<in> measure (\<lambda>(n, d, k). 52 + d - k)" by simp
qed

declare up_shift.simps [simp del]

definition to_double :: "nat \<Rightarrow> nat \<Rightarrow> double" where
  "to_double n d = (let k = up_shift n d 0 in (rne (n * 2 ^ k) d, k))"

definition fdiv :: "nat \<Rightarrow> nat \<Rightarrow> double" where
  "fdiv a b = to_double a b"

definition fmul :: "double \<Rightarrow> nat \<Rightarrow> double" where
  "fmul x c = (case x of (m, k) \<Rightarrow> to_double (m * c) (2 ^ k))"

text \<open>\<open>Math.round\<close> of a double that is not negative: \<open>floor (x + 1/2)\<close>, computed exactly.\<close>

definition Math_round :: "double \<Rightarrow> nat" where
  "Math_round x = (case x of (m, k) \<Rightarrow> (2 * m + 2 ^ k) div (2 * 2 ^ k))"

definition progressOf :: "nat \<Rightarrow> nat \<Rightarrow> nat" where
  "progressOf i n = Math_round (fmul (fdiv (i + 1) n) 100)"

section \<open>The Batch Runner: \<open>processImages\<close>\<close>

text \<open>
  \<open>file.name.split('.')\<close>: the pieces of the name between the dots. The result of
  \<open>split\<close> with a separator that is not empty always has a first element.
\<close>

fun js_split :: "char \<Rightarrow> string \<Rightarrow> string list" where
  "js_split c [] = [[]]"
| "js_split c (x # xs) =
     (if x = c then [] # js_split c xs
      else (case js_split c xs of
              [] \<Rightarrow> [[x]]
            | p # ps \<Rightarrow> (x # p) # ps))"

definition displayName :: "string \<Rightarrow> string" where
  "displayName n = (case js_split CHR ''.'' n of [] \<Rightarrow> [] | p # ps \<Rightarrow> p)"

text \<open>
  \<open>splitImageIntoFour\<close> (imported from utils/imageHelpers) is a parameter: for a file it
  either rejects with an error or resolves to the list of quadrant data URLs.
  \<open>Math.random().toString(36).substr(2, 9)\<close> is a parameter too: \<open>rnd j\<close> is the string
  that the expression yields at its \<open>j\<close>-th evaluation of the run.
\<close>

type_synonym splitter = "FileWithPreview \<Rightarrow> string + string list"

text \<open>
  The \<open>for\<close> loop, from index \<open>i\<close> on. The accumulator holds the \<open>results\<close> array, the
  number of random draws made so far and the effects so far. The \<open>Inr\<close> branch is the
  rest of the \<open>try\<close> block after the \<open>await\<close>, the \<open>Inl\<close> branch is the \<open>catch\<close> block.
\<close>

function processLoop ::
  "splitter \<Rightarrow> (nat \<Rightarrow> string) \<Rightarrow> FileWithPreview list \<Rightarrow> nat \<Rightarrow>
   ProcessedImage list \<times> nat \<times> Effect list \<Rightarrow> ProcessedImage list \<times> nat \<times> Effect list" where
  "processLoop split rnd fs i (results, draws, tr) =
     (if i < length fs then
        (let file = fs ! i in
         case split file of
           Inr quads \<Rightarrow>
             processLoop split rnd fs (Suc i)
               (results @ [\<lparr>id' = rnd draws, originalName = displayName (name file),
                            quadrants = quads\<rparr>],
                Suc draws,
                tr @ [SetProgress (progressOf i (length fs))])
         | Inl error \<Rightarrow>
             processLoop split rnd fs (Suc i)
               (results, draws, tr @ [ConsoleError error]))
      else (results, draws, tr))"
  by pat_completeness auto
termination
  by (relation "measure (\<lambda>(split, rnd, fs, i, acc). length fs - i)") auto

definition processImages :: "splitter \<Rightarrow> (nat \<Rightarrow> string) \<Rightarrow> AppState \<Rightarrow> Effect list" where
  "processImages split rnd s =
     (if length (files s) = 0 then []
      else
        (case processLoop split rnd (files s) 0 ([], 0, []) of
           (results, draws, tr) \<Rightarrow>
             [SetStatus PROCESSING, SetProcessed [], SetProgress 0] @ tr
             @ [SetProcessed results, SetStatus COMPLETED]))"

text \<open>The state of the component once all updates of a run are applied.\<close>

definition runBatch :: "splitter \<Rightarrow> (nat \<Rightarrow> string) \<Rightarrow> AppState \<Rightarrow> AppState" where
  "runBatch split rnd s = applyEffects s (processImages split rnd s)"

declare processLoop.simps [simp del]

text \<open>
  What the loop computes, by recursion on the files that are left: the results (\<open>d\<close>
  random draws were made before) and the effects (\<open>i\<close> is the index of the first file
  of the list, \<open>n\<close> the length of the whole batch).
\<close>

fun resultsOf :: "splitter \<Rightarrow> (nat \<Rightarrow> string) \<Rightarrow> nat \<Rightarrow> FileWithPreview list \<Rightarrow> ProcessedImage list" where
  "resultsOf split rnd d [] = []"
| "resultsOf split rnd d (f # fs) =
     (case split f of
        Inr quads \<Rightarrow> \<lparr>id' = rnd d, originalName = displayName (name f), quadrants = quads\<rparr>
                     # resultsOf split rnd (Suc d) fs
      | Inl error \<Rightarrow> resultsOf split rnd d fs)"

fun effectsOf :: "splitter \<Rightarrow> nat \<Rightarrow> nat \<Rightarrow> FileWithPreview list \<Rightarrow> Effect list" where
  "effectsOf split n i [] = []"
| "effectsOf split n i (f # fs) =
     (case split f of
        Inr quads \<Rightarrow> SetProgress (progressOf i n)
      | Inl error \<Rightarrow> ConsoleError error) # effectsOf split n (Suc i) fs"

text \<open>
  The display name as the specification words it: the file name minus its (final)
  extension. A name without a dot has no extension.
\<close>

definition stripExtension :: "string \<Rightarrow> string" where
  "stripExtension n =
     (if CHR ''.'' \<in> set n then rev (tl (dropWhile (\<lambda>c. c \<noteq> CHR ''.'') (rev n))) else n)"

section \<open>The Packager: \<open>downloadZip\<close>\<close>

text \<open>
  The archive library is ambient (\<open>window.JSZip\<close>) and not part of the repository. Its
  \<open>files\<close> table maps a path to an entry, a directory or a file with its content, and
  keeps the order in which the paths were first stored. The model covers the three
  operations that \<open>downloadZip\<close> calls:
  \<^item> \<open>this.files[name] = entry\<close> replaces the entry of a path that is there and appends one
    that is not;
  \<^item> \<open>folder(arg)\<close> returns the archive itself for an empty name; otherwise it stores a
    directory entry for \<open>root + arg + "/"\<close> unless the path has one, and returns a handle
    on the same table whose root is that path;
  \<^item> \<open>file(name, data)\<close> stores the content under \<open>root + name\<close>.
  Display names come from file names, which hold no \<open>/\<close>; the parent directories that
  the library would add for a nested path are not modelled.
\<close>

datatype ZipEntry = Dir | FileEntry blob

type_synonym zipfiles = "(string \<times> ZipEntry) list"

fun zip_set :: "string \<Rightarrow> ZipEntry \<Rightarrow> zipfiles \<Rightarrow> zipfiles" where
  "zip_set k v [] = [(k, v)]"
| "zip_set k v ((k', v') # fs) =
     (if k' = k then (k, v) # fs else (k', v') # zip_set k v fs)"

definition folderAdd :: "string \<Rightarrow> zipfiles \<Rightarrow> string \<times> zipfiles" where
  "folderAdd path fs =
     (let path' = (if path = [] \<or> last path \<noteq> CHR ''/'' then path @ ''/'' else path)
      in (path', if path' \<in> fst ` set fs then fs else zip_set path' Dir fs))"

definition zip_folder :: "string \<Rightarrow> string \<Rightarrow> zipfiles \<Rightarrow> string \<times> zipfiles" where
  "zip_folder root arg fs = (if arg = [] then (root, fs) else folderAdd (root @ arg) fs)"

definition zip_file :: "string \<Rightarrow> string \<Rightarrow> blob \<Rightarrow> zipfiles \<Rightarrow> zipfiles" where
  "zip_file root fname data fs = zip_set (root @ fname) (FileEntry data) fs"

text \<open>A number inside a template literal: its decimal digits.\<close>

definition digit_char :: "nat \<Rightarrow> char" where
  "digit_char d = ''0123456789'' ! d"

fun show_nat :: "nat \<Rightarrow> string" where
  "show_nat n = (if n < 10 then [digit_char n] else show_nat (n div 10) @ [digit_char (n mod 10)])"

declare show_nat.simps [simp del]

text \<open>
  \<open>dataURLtoBlob\<close> (imported from utils/imageHelpers) is a parameter. The inner
  \<open>forEach\<close> of \<open>downloadZip\<close> runs over the quadrants with their indices, the outer
  one over the processed results.
\<close>

definition addQuadrants ::
  "(string \<Rightarrow> blob) \<Rightarrow> string \<Rightarrow> string \<Rightarrow> string list \<Rightarrow> zipfiles \<Rightarrow> zipfiles" where
  "addQuadrants dataURLtoBlob root nm quads fs =
     foldl (\<lambda>fs (idx, dataUrl).
              zip_file root (nm @ ''_quad_'' @ show_nat (idx + 1) @ ''.png'') (dataURLtoBlob dataUrl) fs)
           fs (enumerate 0 quads)"

definition addItem :: "(string \<Rightarrow> blob) \<Rightarrow> zipfiles \<Rightarrow> ProcessedImage \<Rightarrow> zipfiles" where
  "addItem dataURLtoBlob fs item =
     (case zip_folder [] (originalName item) fs of
        (root, fs') \<Rightarrow> addQuadrants dataURLtoBlob root (originalName item) (quadrants item) fs')"

definition buildZip :: "(string \<Rightarrow> blob) \<Rightarrow> ProcessedImage list \<Rightarrow> zipfiles" where
  "buildZip dataURLtoBlob items = foldl (addItem dataURLtoBlob) [] items"

text \<open>
  What \<open>downloadZip\<close> does to the outside: the \<open>alert\<close>, or the click on a link that
  downloads the generated archive under a name. \<open>jszip\<close> says whether \<open>window.JSZip\<close>
  is there, \<open>now\<close> is \<open>new Date().getTime()\<close>. The function calls no state setter; the
  state is returned as it was given.
\<close>

datatype Delivery = Alert string | Download string zipfiles

definition downloadZip ::
  "bool \<Rightarrow> (string \<Rightarrow> blob) \<Rightarrow> nat \<Rightarrow> AppState \<Rightarrow> AppState \<times> Delivery list" where
  "downloadZip jszip dataURLtoBlob now s =
     (if \<not> jszip then (s, [Alert ''JSZip library not loaded yet. Please refresh.''])
      else (s, [Download (''quadsplit_images_'' @ show_nat now @ ''.zip'')
                         (buildZip dataURLtoBlob (processed s))]))"

text \<open>Reading the archive: its directories, its files, and the files of one directory.\<close>

definition zipFolders :: "zipfiles \<Rightarrow> string list" where
  "zipFolders fs = map fst (filter (\<lambda>e. snd e = Dir) fs)"

definition zipFiles :: "zipfiles \<Rightarrow> (string \<times> ZipEntry) list" where
  "zipFiles fs = filter (\<lambda>e. snd e \<noteq> Dir) fs"

text \<open>
  The directory of a path: the text before its first \<open>/\<close>, and the empty name (the root
  of the archive) for a path without one.
\<close>

definition dirOf :: "string \<Rightarrow> string" where
  "dirOf p = (if CHR ''/'' \<in> set p then takeWhile (\<lambda>c. c \<noteq> CHR ''/'') p else [])"


text \<open>
  The label of the download button: \<open>Download ZIP ({processed.length * 4} Images)\<close>.
\<close>

definition downloadLabel :: "AppState \<Rightarrow> string" where
  "downloadLabel s = ''Download ZIP ('' @ show_nat (length (processed s) * 4) @ '' Images)''"

text \<open>
  What one result puts into the archive when nothing of its name is there yet: the
  directory entry (none for an empty display name, where \<open>folder\<close> returns the root) and
  one file entry per quadrant. \<open>folderPath\<close> is the root of the handle that \<open>folder\<close> returns.
\<close>

definition folderPath :: "string \<Rightarrow> string" where
  "folderPath nm = (if nm = [] then [] else nm @ ''/'')"

definition quadPath :: "string \<Rightarrow> nat \<Rightarrow> string" where
  "quadPath nm n = folderPath nm @ nm @ ''_quad_'' @ show_nat n @ ''.png''"

definition itemEntries :: "(string \<Rightarrow> blob) \<Rightarrow> ProcessedImage \<Rightarrow> zipfiles" where
  "itemEntries dataURLtoBlob item =
     (if originalName item = [] then [] else [(originalName item @ ''/'', Dir)])
     @ map (\<lambda>(idx, dataUrl). (quadPath (originalName item) (idx + 1), FileEntry (dataURLtoBlob dataUrl)))
         (enumerate 0 (quadrants item))"

text \<open>
  The results that show in the archive: a result takes the place of an earlier result
  of the same display name, and is added at the end when there is none.
\<close>

fun putItem :: "ProcessedImage \<Rightarrow> ProcessedImage list \<Rightarrow> ProcessedImage list" where
  "putItem r [] = [r]"
| "putItem r (x # xs) = (if originalName x = originalName r then r # xs else x # putItem r xs)"

definition shownItems :: "ProcessedImage list \<Rightarrow> ProcessedImage list" where
  "shownItems items = foldl (\<lambda>bs r. putItem r bs) [] items"

text \<open>
  The results that the statements about the archive are made for: a display name that
  holds no \<open>/\<close> (a file name holds none), and the four quadrants of a quadrant set.
\<close>

definition wellFormed :: "ProcessedImage \<Rightarrow> bool" where
  "wellFormed r \<longleftrightarrow> CHR ''/'' \<notin> set (originalName r) \<and> length (quadrants r) = 4"

section \<open>The Quadrant Splitter\<close>

record Rect =
  left :: nat
  top :: nat
  width :: nat
  height :: nat

text \<open>
  Modelled from the spec: \<open>splitImageIntoFour\<close> lives in utils/imageHelpers, which is
  not among the sources. The crops are those of section 4.1: with \<open>hw = floor (W / 2)\<close>
  and \<open>hh = floor (H / 2)\<close>, top-left at \<open>(0, 0)\<close> of size \<open>(hw, hh)\<close>, top-right at
  \<open>(hw, 0)\<close> of size \<open>(W - hw, hh)\<close>, bottom-left at \<open>(0, hh)\<close> of size \<open>(hw, H - hh)\<close>,
  bottom-right at \<open>(hw, hh)\<close> of size \<open>(W - hw, H - hh)\<close>.
\<close>

definition splitImageIntoFour :: "nat \<Rightarrow> nat \<Rightarrow> Rect list" where
  "splitImageIntoFour W H =
     (let hw = W div 2; hh = H div 2
      in [\<lparr>left = 0, top = 0, width = hw, height = hh\<rparr>,
          \<lparr>left = hw, top = 0, width = W - hw, height = hh\<rparr>,
          \<lparr>left = 0, top = hh, width = hw, height = H - hh\<rparr>,
          \<lparr>left = hw, top = hh, width = W - hw, height = H - hh\<rparr>])"

definition inRect :: "Rect \<Rightarrow> nat \<Rightarrow> nat \<Rightarrow> bool" where
  "inRect r px py \<longleftrightarrow>
     left r \<le> px \<and> px < left r + width r \<and> top r \<le> py \<and> py < top r + height r"

definition area :: "Rect \<Rightarrow> nat" where
  "area r = width r * height r"

section \<open>Example inputs\<close>

text \<open>
  A splitter that rejects the files without bytes and cuts every other file into four
  quadrants, a random source that yields the same string at every draw (what the
  expression gives when \<open>Math.random()\<close> returns \<open>0.5\<close>), and some files and states.
\<close>

definition exSplit :: splitter where
  "exSplit f = (if bytes f = [] then Inl ''corrupt'' else Inr [''q1'', ''q2'', ''q3'', ''q4''])"

definition exRnd :: "nat \<Rightarrow> string" where
  "exRnd j = ''i''"

definition exGood :: "string \<Rightarrow> FileWithPreview" where
  "exGood n = \<lparr>name = n, bytes = [137, 80, 78, 71], preview = None\<rparr>"

definition exBad :: "string \<Rightarrow> FileWithPreview" where
  "exBad n = \<lparr>name = n, bytes = [], preview = None\<rparr>"

definition exState :: "FileWithPreview list \<Rightarrow> AppState" where
  "exState fs = \<lparr>files = fs, processed = [], status = IDLE, progress = 0\<rparr>"

text \<open>
  A result with four quadrants whose data URLs are the identifier followed by a digit,
  and a converter that gives a data URL the codes of its characters as bytes.
\<close>

definition exItem :: "string \<Rightarrow> string \<Rightarrow> ProcessedImage" where
  "exItem i n = \<lparr>id' = i, originalName = n,
                 quadrants = [i @ ''1'', i @ ''2'', i @ ''3'', i @ ''4'']\<rparr>"

definition exBlob :: "string \<Rightarrow> blob" where
  "exBlob u = map of_char u"

section \<open>Evaluating the progress expression\<close>

text \<open>
  The search for the scaling exponent stops at the first exponent that lifts the value
  to \<open>2 ^ 52\<close>; knowing that exponent evaluates the expression without running the search.
\<close>

lemma up_shift_stop: "n \<noteq> 0 \<Longrightarrow> 2 ^ 52 * d \<le> n * 2 ^ k \<Longrightarrow> up_shift n d k = k"
  by (subst up_shift.simps) (simp only: if_True simp_thms)

lemma up_shift_step: "n \<noteq> 0 \<Longrightarrow> \<not> 2 ^ 52 * d \<le> n * 2 ^ k \<Longrightarrow> up_shift n d k = up_shift n d (Suc k)"
  by (subst up_shift.simps) (simp only: if_False simp_thms)

lemma up_shift_eq:
  assumes "n \<noteq> 0" and "2 ^ 52 * d \<le> n * 2 ^ (k + j)"
    and "\<And>i. i < j \<Longrightarrow> \<not> 2 ^ 52 * d \<le> n * 2 ^ (k + i)"
  shows "up_shift n d k = k + j"
  using assms
proof (induction j arbitrary: k)
  case 0
  from 0(2) have "2 ^ 52 * d \<le> n * 2 ^ k" by (simp only: add_0_right simp_thms)
  with 0(1) have "up_shift n d k = k" by (rule up_shift_stop)
  then show ?case by (simp only: add_0_right)
next
  case (Suc j)
  have "0 < Suc j" by simp
  from Suc.prems(3) [OF this] have "\<not> 2 ^ 52 * d \<le> n * 2 ^ k" by (simp only: add_0_right simp_thms)
  then have "up_shift n d k = up_shift n d (Suc k)" using Suc.prems(1) by (rule up_shift_step [rotated])
  also have "up_shift n d (Suc k) = Suc k + j"
  proof (rule Suc.IH)
    show "n \<noteq> 0" by fact
    show "2 ^ 52 * d \<le> n * 2 ^ (Suc k + j)" using Suc.prems(2) by (simp only: add_Suc add_Suc_right simp_thms)
    fix i assume "i < j"
    then have "Suc i < Suc j" by simp
    from Suc.prems(3) [OF this] show "\<not> 2 ^ 52 * d \<le> n * 2 ^ (Suc k + i)"
      by (simp only: add_Suc add_Suc_right simp_thms)
  qed
  finally show ?case by (simp only: add_Suc add_Suc_right)
qed

lemma up_shift_0:
  assumes "n \<noteq> 0" and "2 ^ 52 * d \<le> n * 2 ^ Suc K" and "n * 2 ^ K < 2 ^ 52 * d"
  shows "up_shift n d 0 = Suc K"
proof -
  have "up_shift n d 0 = 0 + Suc K"
  proof (rule up_shift_eq)
    show "n \<noteq> 0" by fact
    show "2 ^ 52 * d \<le> n * 2 ^ (0 + Suc K)" using assms(2) by (simp only: add_0 simp_thms)
    fix i assume "i < Suc K"
    then have "i \<le> K" by simp
    then have "(2::nat) ^ i \<le> 2 ^ K" by (simp only: power_increasing one_le_numeral)
    then have "n * 2 ^ i \<le> n * 2 ^ K" by (rule mult_le_mono2)
    with assms(3) have "n * 2 ^ i < 2 ^ 52 * d" by (rule le_less_trans [rotated])
    then show "\<not> 2 ^ 52 * d \<le> n * 2 ^ (0 + i)" by (simp only: add_0 not_le simp_thms)
  qed
  then show ?thesis by (simp only: add_0)
qed

lemma fdiv_1_2: "fdiv (0 + 1) 2 = (4503599627370496, 53)"
proof -
  have "up_shift 1 2 0 = Suc 52" by (rule up_shift_0) simp_all
  then show ?thesis by (simp add: fdiv_def to_double_def rne_def)
qed

lemma fmul_half_100: "fmul (4503599627370496, 53) 100 = (7036874417766400, 47)"
proof -
  have "up_shift (4503599627370496 * 100) (2 ^ 53) 0 = Suc 46" by (rule up_shift_0) simp_all
  then show ?thesis by (simp add: fmul_def to_double_def rne_def)
qed

lemma progressOf_0_2: "progressOf 0 2 = 50"
  unfolding progressOf_def fdiv_1_2 fmul_half_100 by (simp add: Math_round_def)

lemma progressOf_0_2': "progressOf 0 (Suc (Suc 0)) = 50"
  using progressOf_0_2 by (simp only: numeral_2_eq_2)

section \<open>The loop and what it computes\<close>

lemma processLoop_results:
  "i \<le> length fs \<Longrightarrow>
   fst (processLoop split rnd fs i (res, d, tr)) = res @ resultsOf split rnd d (drop i fs)"
proof (induction split rnd fs i "(res, d, tr)" arbitrary: res d tr rule: processLoop.induct)
  case (1 split rnd fs i results draws tr)
  show ?case
  proof (cases "i < length fs")
    case False
    with 1(3) show ?thesis by (subst processLoop.simps) simp
  next
    case True
    then have dr: "drop i fs = fs ! i # drop (Suc i) fs" by (simp add: Cons_nth_drop_Suc)
    show ?thesis
    proof (cases "split (fs ! i)")
      case (Inl e)
      with True 1(1)[OF True refl Inl] dr show ?thesis
        by (subst processLoop.simps) simp
    next
      case (Inr q)
      with True 1(2)[OF True refl Inr] dr show ?thesis
        by (subst processLoop.simps) simp
    qed
  qed
qed

lemma processLoop_effects:
  "i \<le> length fs \<Longrightarrow>
   snd (snd (processLoop split rnd fs i (res, d, tr))) = tr @ effectsOf split (length fs) i (drop i fs)"
proof (induction split rnd fs i "(res, d, tr)" arbitrary: res d tr rule: processLoop.induct)
  case (1 split rnd fs i results draws tr)
  show ?case
  proof (cases "i < length fs")
    case False
    with 1(3) show ?thesis by (subst processLoop.simps) simp
  next
    case True
    then have dr: "drop i fs = fs ! i # drop (Suc i) fs" by (simp add: Cons_nth_drop_Suc)
    show ?thesis
    proof (cases "split (fs ! i)")
      case (Inl e)
      with True 1(1)[OF True refl Inl] dr show ?thesis
        by (subst processLoop.simps) simp
    next
      case (Inr q)
      with True 1(2)[OF True refl Inr] dr show ?thesis
        by (subst processLoop.simps) simp
    qed
  qed
qed

lemma processImages_eq:
  "files s \<noteq> [] \<Longrightarrow>
   processImages split rnd s =
     [SetStatus PROCESSING, SetProcessed [], SetProgress 0]
     @ effectsOf split (length (files s)) 0 (files s)
     @ [SetProcessed (resultsOf split rnd 0 (files s)), SetStatus COMPLETED]"
  using processLoop_results [of 0 "files s" split rnd "[]" 0 "[]"]
        processLoop_effects [of 0 "files s" split rnd "[]" 0 "[]"]
  by (auto simp add: processImages_def split: prod.splits)

lemma applyEffects_append: "applyEffects s (a @ b) = applyEffects (applyEffects s a) b"
  by (simp add: applyEffects_def)

lemma transitions_append:
  "transitions s (a @ b) = transitions s a @ transitions (applyEffects s a) b"
  by (induction a arbitrary: s) (simp_all add: applyEffects_def)

lemma effectsOf_status: "status (applyEffects s (effectsOf split n i fs)) = status s"
  by (induction fs arbitrary: s i) (auto simp: applyEffects_def split: sum.splits)

lemma effectsOf_processed: "processed (applyEffects s (effectsOf split n i fs)) = processed s"
  by (induction fs arbitrary: s i) (auto simp: applyEffects_def split: sum.splits)

lemma effectsOf_transitions: "transitions s (effectsOf split n i fs) = []"
  by (induction fs arbitrary: s i) (auto split: sum.splits)

lemma effectsOf_length: "length (effectsOf split n i fs) = length fs"
  by (induction fs arbitrary: i) auto

lemma effectsOf_files: "files (applyEffects s (effectsOf split n i fs)) = files s"
  by (induction fs arbitrary: s i) (auto simp: applyEffects_def split: sum.splits)

lemma runBatch_eq:
  assumes "files s \<noteq> []"
  shows "processed (runBatch split rnd s) = resultsOf split rnd 0 (files s)"
    and "status (runBatch split rnd s) = COMPLETED"
    and "files (runBatch split rnd s) = files s"
proof -
  let ?s1 = "applyEffects s [SetStatus PROCESSING, SetProcessed [], SetProgress 0]"
  let ?s2 = "applyEffects ?s1 (effectsOf split (length (files s)) 0 (files s))"
  have run: "runBatch split rnd s =
      applyEffects ?s2 [SetProcessed (resultsOf split rnd 0 (files s)), SetStatus COMPLETED]"
    unfolding runBatch_def processImages_eq [OF assms] by (simp only: applyEffects_append)
  show "processed (runBatch split rnd s) = resultsOf split rnd 0 (files s)"
    by (simp add: run) (simp add: applyEffects_def)
  show "status (runBatch split rnd s) = COMPLETED"
    by (simp add: run) (simp add: applyEffects_def)
  have "files ?s2 = files ?s1" by (rule effectsOf_files)
  also have "\<dots> = files s" by (simp add: applyEffects_def)
  finally show "files (runBatch split rnd s) = files s"
    by (simp add: run) (simp add: applyEffects_def)
qed

lemma resultsOf_filter:
  "map (\<lambda>r. (originalName r, quadrants r)) (resultsOf split rnd d fs) =
   map (\<lambda>f. (displayName (name f), projr (split f))) (filter (\<lambda>f. \<not> isl (split f)) fs)"
  by (induction fs arbitrary: d) (auto split: sum.splits)

lemma resultsOf_ids:
  "map id' (resultsOf split rnd d fs) =
   map (\<lambda>j. rnd (d + j)) [0 ..< length (resultsOf split rnd d fs)]"
proof (induction fs arbitrary: d)
  case Nil
  show ?case by simp
next
  case (Cons f fs)
  show ?case
  proof (cases "split f")
    case (Inl e)
    with Cons show ?thesis by simp
  next
    case (Inr q)
    with Cons [of "Suc d"] show ?thesis by (simp add: map_upt_Suc del: upt_Suc)
  qed
qed

lemma filter_all_but_one:
  assumes "k < length xs" and "\<forall>i<length xs. P (xs ! i) \<longleftrightarrow> i \<noteq> k"
  shows "filter P xs = take k xs @ drop (Suc k) xs"
proof -
  have xs: "xs = take k xs @ xs ! k # drop (Suc k) xs"
    using assms(1) by (simp add: id_take_nth_drop)
  have a: "\<forall>x \<in> set (take k xs). P x"
    using assms by (auto simp: in_set_conv_nth)
  have b: "\<forall>x \<in> set (drop (Suc k) xs). P x"
    using assms by (auto simp: in_set_conv_nth)
  have c: "\<not> P (xs ! k)" using assms by simp
  have "filter P xs = filter P (take k xs @ xs ! k # drop (Suc k) xs)"
    using xs by simp
  also have "\<dots> = take k xs @ drop (Suc k) xs"
    using a b c by (simp add: filter_id_conv)
  finally show ?thesis .
qed


lemma processImages_transitions:
  assumes "files s \<noteq> []"
  shows "transitions s (processImages split rnd s) =
         (if status s = PROCESSING then [] else [(status s, PROCESSING)])
         @ [(PROCESSING, COMPLETED)]"
proof -
  let ?pre = "[SetStatus PROCESSING, SetProcessed [], SetProgress 0]"
  let ?mid = "effectsOf split (length (files s)) 0 (files s)"
  let ?post = "[SetProcessed (resultsOf split rnd 0 (files s)), SetStatus COMPLETED]"
  let ?s1 = "applyEffects s ?pre"
  let ?s2 = "applyEffects ?s1 ?mid"
  have s1: "status ?s1 = PROCESSING" by (simp add: applyEffects_def)
  have s2: "status ?s2 = PROCESSING" by (simp only: effectsOf_status s1)
  have t1: "transitions s ?pre = (if status s = PROCESSING then [] else [(status s, PROCESSING)])"
    by simp
  have t2: "transitions ?s1 ?mid = []" by (rule effectsOf_transitions)
  have t3: "transitions ?s2 ?post = [(PROCESSING, COMPLETED)]"
    using s2 by simp
  have "transitions s (processImages split rnd s) = transitions s (?pre @ ?mid @ ?post)"
    by (simp only: processImages_eq [OF assms])
  also have "\<dots> = transitions s ?pre @ transitions ?s1 ?mid @ transitions ?s2 ?post"
    by (simp only: transitions_append applyEffects_append)
  finally show ?thesis by (simp only: t1 t2 t3 append_Nil)
qed


lemma exSplit_simps:
  "exSplit (exGood n) = Inr [''q1'', ''q2'', ''q3'', ''q4'']"
  "exSplit (exBad n) = Inl ''corrupt''"
  by (simp_all add: exSplit_def exGood_def exBad_def)

lemma effectsOf_nth:
  "i < length fs \<Longrightarrow>
   effectsOf split n j fs ! i =
     (case split (fs ! i) of Inr q \<Rightarrow> SetProgress (progressOf (j + i) n) | Inl e \<Rightarrow> ConsoleError e)"
proof (induction fs arbitrary: i j)
  case Nil
  then show ?case by simp
next
  case (Cons f fs)
  show ?case
  proof (cases i)
    case 0
    then show ?thesis by (simp split: sum.splits)
  next
    case (Suc i')
    with Cons.prems have "i' < length fs" by simp
    from Cons.IH [OF this, of "Suc j"] Suc show ?thesis by (simp split: sum.splits)
  qed
qed

lemma effectsOf_no_status: "e \<in> set (effectsOf split n i fs) \<Longrightarrow> e \<noteq> SetStatus v"
  by (induction fs arbitrary: i) (auto split: sum.splits)

lemma show_nat_digit: "n < 10 \<Longrightarrow> show_nat n = [digit_char n]"
  by (subst show_nat.simps) simp

lemma digit_char_simps:
  "digit_char 0 = CHR ''0''" "digit_char 1 = CHR ''1''" "digit_char 2 = CHR ''2''"
  "digit_char 3 = CHR ''3''" "digit_char 4 = CHR ''4''"
  by (simp_all add: digit_char_def)

section \<open>What the progress counter shows\<close>

text \<open>
  The double arithmetic of the progress expression is exact enough: for a batch of
  fewer than \<open>2 ^ 32\<close> files (the bound of an array length) the value set after image
  \<open>i\<close> is an integer nearest to \<open>100 * (i + 1) / n\<close>. The two roundings of the quotient
  and of the product move the value by less than the distance between \<open>100 * (i + 1) / n\<close>
  and the next half-integer, unless the quotient is a half-integer itself, where both
  neighbours are nearest.
\<close>

lemma rne_bounds:
  assumes "0 < d"
  shows "2 * rne n d * d \<le> 2 * n + d" and "2 * n \<le> 2 * rne n d * d + d"
proof -
  define q r where "q = n div d" and "r = n mod d"
  have n: "n = q * d + r" by (simp add: q_def r_def)
  have r: "r < d" using assms by (simp add: r_def)
  have e: "rne n d = (if 2 * r < d then q else if d < 2 * r then q + 1 else if even q then q else q + 1)"
    by (simp add: rne_def q_def r_def Let_def)
  show "2 * rne n d * d \<le> 2 * n + d"
    unfolding e using r by (auto simp: n algebra_simps)
  show "2 * n \<le> 2 * rne n d * d + d"
    unfolding e using r by (auto simp: n algebra_simps)
qed

lemma up_shift_post: "n \<noteq> 0 \<Longrightarrow> 2 ^ 52 * d \<le> n * 2 ^ up_shift n d k"
proof (induction n d k rule: up_shift.induct)
  case (1 n d k)
  show ?case
  proof (cases "2 ^ 52 * d \<le> n * 2 ^ k")
    case True
    with 1(2) have "up_shift n d k = k" by (rule up_shift_stop)
    with True show ?thesis by (simp only:)
  next
    case False
    with 1(2) have "up_shift n d k = up_shift n d (Suc k)" by (rule up_shift_step)
    moreover have "2 ^ 52 * d \<le> n * 2 ^ up_shift n d (Suc k)"
      using 1(1) 1(2) False by blast
    ultimately show ?thesis by (simp only:)
  qed
qed

lemma up_shift_min:
  "n \<noteq> 0 \<Longrightarrow> up_shift n d k = k \<or> n * 2 ^ (up_shift n d k - 1) < 2 ^ 52 * d"
proof (induction n d k rule: up_shift.induct)
  case (1 n d k)
  show ?case
  proof (cases "2 ^ 52 * d \<le> n * 2 ^ k")
    case True
    with 1(2) have "up_shift n d k = k" by (rule up_shift_stop)
    then show ?thesis by blast
  next
    case False
    with 1(2) have eq: "up_shift n d k = up_shift n d (Suc k)" by (rule up_shift_step)
    have ih: "up_shift n d (Suc k) = Suc k \<or> n * 2 ^ (up_shift n d (Suc k) - 1) < 2 ^ 52 * d"
      using 1(1) 1(2) False by blast
    show ?thesis
    proof (cases "up_shift n d (Suc k) = Suc k")
      case True
      then have "up_shift n d k - 1 = k" using eq by simp
      moreover from False have "n * 2 ^ k < 2 ^ 52 * d" by (simp only: not_le)
      ultimately show ?thesis by (simp only: simp_thms)
    next
      case False
      with ih have "n * 2 ^ (up_shift n d (Suc k) - 1) < 2 ^ 52 * d" by blast
      then show ?thesis by (simp only: eq simp_thms)
    qed
  qed
qed

lemma round_chain_upper:
  fixes a b T U m1 m2 p :: nat
  assumes R1a: "2 * m1 * b \<le> 2 * a * T + b"
    and R2a: "2 * m2 * T \<le> 200 * m1 * U + T"
    and Pa: "2 * U * p \<le> 2 * m2 + U"
    and bU: "2 * b \<le> U" and bT: "200 * b < T" and U: "0 < U"
  shows "2 * b * p \<le> 200 * a + b"
proof (rule ccontr)
  assume "\<not> 2 * b * p \<le> 200 * a + b"
  then have "200 * a + b + 1 \<le> 2 * b * p" by simp
  then have c: "(200 * a + b + 1) * (T * U) \<le> 2 * b * p * (T * U)" by (rule mult_le_mono1)
  have s1: "2 * U * p * (T * b) \<le> (2 * m2 + U) * (T * b)" using Pa by (rule mult_le_mono1)
  have s2: "2 * m2 * T * b \<le> (200 * m1 * U + T) * b" using R2a by (rule mult_le_mono1)
  have s3: "2 * m1 * b * (100 * U) \<le> (2 * a * T + b) * (100 * U)" using R1a by (rule mult_le_mono1)
  have s4: "2 * b * T \<le> U * T" using bU by (rule mult_le_mono1)
  from U bT have s5: "200 * b * U < T * U" by simp
  have s4': "2 * (T * b) \<le> T * U" using s4 by (simp only: ac_simps)
  have s5': "2 * (U * (b * 100)) < T * U" using s5 by (simp add: ac_simps)
  from s4' s5' have s6: "T * b + U * (b * 100) < T * U" by linarith
  from c s1 s2 s3 s6 show False
    by (simp add: algebra_simps)
qed

lemma round_chain_lower:
  fixes a b T U m1 m2 p :: nat
  assumes R1b: "2 * a * T \<le> 2 * m1 * b + b"
    and R2b: "200 * m1 * U \<le> 2 * m2 * T + T"
    and Pb: "2 * m2 + U < 2 * U * (p + 1)"
    and bU: "2 * b \<le> U" and bT: "200 * b < T" and U: "0 < U"
  shows "200 * a \<le> 2 * b * p + b"
proof (rule ccontr)
  assume "\<not> 200 * a \<le> 2 * b * p + b"
  then have "2 * b * p + b + 1 \<le> 200 * a" by simp
  then have c: "(2 * b * p + b + 1) * (T * U) \<le> 200 * a * (T * U)" by (rule mult_le_mono1)
  from Pb have "2 * m2 + U + 1 \<le> 2 * U * (p + 1)" by simp
  then have s1: "(2 * m2 + U + 1) * (T * b) \<le> 2 * U * (p + 1) * (T * b)" by (rule mult_le_mono1)
  have s2: "200 * m1 * U * b \<le> (2 * m2 * T + T) * b" using R2b by (rule mult_le_mono1)
  have s3: "2 * a * T * (100 * U) \<le> (2 * m1 * b + b) * (100 * U)" using R1b by (rule mult_le_mono1)
  from U bT have s5: "200 * b * U < T * U" by simp
  have s5': "2 * (U * (b * 100)) < T * U" using s5 by (simp add: ac_simps)
  then have s6: "U * (b * 100) < T * U" by linarith
  from c s1 s2 s3 s6 show False
    by (simp add: algebra_simps)
qed


lemma progressOf_nearest:
  assumes "i < n" and "n < 2 ^ 32"
  shows "2 * n * progressOf i n \<le> 200 * (i + 1) + n
    \<and> 200 * (i + 1) \<le> 2 * n * progressOf i n + n"
proof -
  define a where "a = i + 1"
  define k1 where "k1 = up_shift a n 0"
  define T :: nat where "T = 2 ^ k1"
  define m1 where "m1 = rne (a * T) n"
  define k2 where "k2 = up_shift (m1 * 100) T 0"
  define U :: nat where "U = 2 ^ k2"
  define m2 where "m2 = rne (m1 * 100 * U) T"
  define p where "p = (2 * m2 + U) div (2 * U)"
  have c52: "(2::nat) ^ 52 = 4503599627370496" by simp
  have a0: "a \<noteq> 0" and an: "a \<le> n" and n0: "0 < n" using assms(1) by (simp_all add: a_def)
  have n32: "n < 4294967296" using assms(2) by simp
  have T0: "0 < T" and U0: "0 < U" by (simp_all add: T_def U_def)
  have p: "progressOf i n = p"
    by (simp add: progressOf_def fdiv_def fmul_def to_double_def Math_round_def Let_def
          p_def m2_def U_def k2_def m1_def T_def k1_def a_def)
  \<comment> \<open>the quotient\<close>
  have post1: "4503599627370496 * n \<le> a * T"
    using up_shift_post [OF a0, of n 0] by (simp only: c52 T_def k1_def)
  have "a * T \<le> n * T" using an by (rule mult_le_mono1)
  with post1 have "4503599627370496 * n \<le> n * T" by (rule order_trans)
  then have "n * 4503599627370496 \<le> n * T" by (simp only: mult.commute)
  with n0 have T52: "4503599627370496 \<le> T" by simp
  have k1: "k1 \<noteq> 0"
  proof
    assume "k1 = 0"
    then have "T = 1" by (simp add: T_def)
    with T52 show False by simp
  qed
  have "a * 2 ^ (k1 - 1) < 4503599627370496 * n"
    using up_shift_min [OF a0, of n 0] k1 by (simp only: c52 k1_def [symmetric]) blast
  moreover have "T = 2 * 2 ^ (k1 - 1)" using k1 by (cases k1) (simp_all add: T_def)
  ultimately have aT: "a * T < 9007199254740992 * n" by simp
  have R1a: "2 * m1 * n \<le> 2 * (a * T) + n" and R1b: "2 * (a * T) \<le> 2 * m1 * n + n"
    unfolding m1_def using n0 by (rule rne_bounds)+
  from R1a aT have "2 * m1 * n < 18014398509481985 * n" by linarith
  then have "2 * m1 < 18014398509481985" by simp
  then have m1u: "m1 \<le> 9007199254740992" by simp
  have m10: "m1 \<noteq> 0"
  proof
    assume "m1 = 0"
    with R1b have "2 * (a * T) \<le> n" by simp
    moreover from post1 n0 have "n < 2 * (a * T)" by simp
    ultimately show False by simp
  qed
  \<comment> \<open>the product\<close>
  have m100: "m1 * 100 \<noteq> 0" using m10 by simp
  have post2: "4503599627370496 * T \<le> m1 * 100 * U"
    using up_shift_post [OF m100, of T 0] by (simp only: c52 U_def k2_def)
  have "m1 * 100 * U \<le> 9007199254740992 * 100 * U"
    using m1u by (intro mult_le_mono1)
  with post2 have "4503599627370496 * T \<le> 9007199254740992 * 100 * U" by (rule order_trans)
  then have TU: "T \<le> 200 * U" by simp
  have bT: "200 * n < T" using T52 n32 by linarith
  have bU: "2 * n \<le> U" using TU T52 n32 by linarith
  have R2a: "2 * m2 * T \<le> 2 * (m1 * 100 * U) + T" and R2b: "2 * (m1 * 100 * U) \<le> 2 * m2 * T + T"
    unfolding m2_def using T0 by (rule rne_bounds)+
  \<comment> \<open>the rounding\<close>
  have "0 < 2 * U" using U0 by simp
  have Pa: "2 * U * p \<le> 2 * m2 + U" unfolding p_def by (rule times_div_less_eq_dividend)
  have Pb: "2 * m2 + U < 2 * U * (p + 1)"
    unfolding p_def using \<open>0 < 2 * U\<close> dividend_less_times_div [of "2 * U" "2 * m2 + U" ]
    by (simp add: ac_simps)
  have up: "2 * n * p \<le> 200 * a + n"
  proof (rule round_chain_upper)
    show "2 * m1 * n \<le> 2 * a * T + n" using R1a by (simp add: ac_simps)
    show "2 * m2 * T \<le> 200 * m1 * U + T" using R2a by (simp add: ac_simps)
    show "2 * U * p \<le> 2 * m2 + U" by (rule Pa)
  qed (rule bU bT U0)+
  have lo: "200 * a \<le> 2 * n * p + n"
  proof (rule round_chain_lower)
    show "2 * a * T \<le> 2 * m1 * n + n" using R1b by (simp add: ac_simps)
    show "200 * m1 * U \<le> 2 * m2 * T + T" using R2b by (simp add: ac_simps)
    show "2 * m2 + U < 2 * U * (p + 1)" by (rule Pb)
  qed (rule bU bT U0)+
  from up lo show ?thesis by (simp only: p a_def)
qed


text \<open>
  On the success path the loop sets the progress to the rounded share of the images
  attempted so far, and a run whose last image splits ends with the progress at 100.
\<close>

lemma fdiv_same: "0 < n \<Longrightarrow> fdiv n n = (4503599627370496, 52)"
proof -
  assume n: "0 < n"
  have "up_shift n n 0 = Suc 51" using n by (intro up_shift_0) simp_all
  then show ?thesis using n by (simp add: fdiv_def to_double_def rne_def)
qed

lemma fmul_one_100: "fmul (4503599627370496, 52) 100 = (7036874417766400, 46)"
proof -
  have "up_shift (4503599627370496 * 100) (2 ^ 52) 0 = Suc 45" by (rule up_shift_0) simp_all
  then show ?thesis by (simp add: fmul_def to_double_def rne_def)
qed

lemma progressOf_last: "0 < n \<Longrightarrow> progressOf (n - 1) n = 100"
  by (simp add: progressOf_def fdiv_same fmul_one_100 Math_round_def)

lemma effectsOf_last_progress:
  "fs \<noteq> [] \<Longrightarrow> \<not> isl (split (last fs)) \<Longrightarrow>
   progress (applyEffects s (effectsOf split n i fs)) = progressOf (i + length fs - 1) n"
proof (induction fs arbitrary: s i)
  case Nil
  then show ?case by simp
next
  case (Cons f fs)
  show ?case
  proof (cases "fs = []")
    case True
    with Cons.prems show ?thesis by (auto simp: applyEffects_def split: sum.splits)
  next
    case False
    with Cons.prems have l: "\<not> isl (split (last fs))" by simp
    have "applyEffects s (effectsOf split n i (f # fs)) =
          applyEffects (applyEffect s (case split f of Inr q \<Rightarrow> SetProgress (progressOf i n)
                                                     | Inl e \<Rightarrow> ConsoleError e))
                       (effectsOf split n (Suc i) fs)"
      by (simp add: applyEffects_def)
    with Cons.IH [OF False l, of _ "Suc i"] show ?thesis by simp
  qed
qed

lemma progress_on_success:
  assumes "files s \<noteq> []"
  shows "(\<forall>i < length (files s). \<forall>q. split (files s ! i) = Inr q \<longrightarrow>
            processImages split rnd s ! (3 + i) = SetProgress (progressOf i (length (files s))))
    \<and> (\<not> isl (split (last (files s))) \<longrightarrow> progress (runBatch split rnd s) = 100)"
proof -
  let ?fs = "files s"
  let ?n = "length ?fs"
  have n: "0 < ?n" using assms by simp
  have a: "processImages split rnd s ! (3 + i) = SetProgress (progressOf i ?n)"
    if "i < ?n" and "split (?fs ! i) = Inr q" for i q
  proof -
    have "processImages split rnd s ! (3 + i) = effectsOf split ?n 0 ?fs ! i"
      using that(1) by (simp add: processImages_eq [OF assms] nth_append effectsOf_length)
    also have "\<dots> = SetProgress (progressOf i ?n)"
      using that by (simp add: effectsOf_nth)
    finally show ?thesis .
  qed
  have b: "progress (runBatch split rnd s) = 100" if l: "\<not> isl (split (last ?fs))"
  proof -
    let ?s1 = "applyEffects s [SetStatus PROCESSING, SetProcessed [], SetProgress 0]"
    let ?s2 = "applyEffects ?s1 (effectsOf split ?n 0 ?fs)"
    have "runBatch split rnd s =
        applyEffects ?s2 [SetProcessed (resultsOf split rnd 0 ?fs), SetStatus COMPLETED]"
      unfolding runBatch_def processImages_eq [OF assms] by (simp only: applyEffects_append)
    then have "progress (runBatch split rnd s) = progress ?s2" by (simp add: applyEffects_def)
    also have "\<dots> = progressOf (0 + ?n - 1) ?n" using assms l by (rule effectsOf_last_progress)
    also have "\<dots> = 100" using progressOf_last [OF n] by simp
    finally show ?thesis .
  qed
  from a b show ?thesis by blast
qed

lemma progress_on_success_example:
  "files (exState [exBad ''a.png'', exGood ''b.png'']) \<noteq> []
   \<and> progress (runBatch exSplit exRnd (exState [exBad ''a.png'', exGood ''b.png''])) = 100"
proof -
  let ?s = "exState [exBad ''a.png'', exGood ''b.png'']"
  have a: "files ?s \<noteq> []" by (simp add: exState_def)
  have l: "\<not> isl (exSplit (last (files ?s)))" by (simp add: exState_def exSplit_simps)
  from progress_on_success [OF a, of exSplit exRnd] a l show ?thesis by blast
qed

section \<open>The display name\<close>

text \<open>
  \<open>split('.')[0]\<close> is the part of the name before its first dot. It is the name minus its
  extension for a name without a dot and for a name with one dot.
\<close>

lemma js_split_nonempty: "js_split c s \<noteq> []"
  by (induction s) (auto split: list.splits)

lemma js_split_hd: "hd (js_split c s) = takeWhile (\<lambda>x. x \<noteq> c) s"
  by (induction s) (auto split: list.splits simp: js_split_nonempty)

lemma displayName_takeWhile: "displayName n = takeWhile (\<lambda>x. x \<noteq> CHR ''.'') n"
  using js_split_hd [of "CHR ''.''" n] js_split_nonempty [of "CHR ''.''" n]
  by (cases "js_split CHR ''.'' n") (simp_all add: displayName_def)

lemma stripExtension_one_dot:
  assumes "CHR ''.'' \<notin> set a" and "CHR ''.'' \<notin> set b"
  shows "stripExtension (a @ CHR ''.'' # b) = a"
proof -
  have "dropWhile (\<lambda>c. c \<noteq> CHR ''.'') (rev b @ CHR ''.'' # rev a) = CHR ''.'' # rev a"
    using assms(2) by (auto simp: dropWhile_append3)
  then show ?thesis by (simp add: stripExtension_def)
qed

lemma displayName_single_dot:
  "displayName n = takeWhile (\<lambda>x. x \<noteq> CHR ''.'') n
   \<and> (CHR ''.'' \<notin> set n \<longrightarrow> displayName n = stripExtension n)
   \<and> (CHR ''.'' \<notin> set a \<and> CHR ''.'' \<notin> set b \<longrightarrow>
        displayName (a @ CHR ''.'' # b) = stripExtension (a @ CHR ''.'' # b))"
proof -
  have 1: "displayName n = stripExtension n" if "CHR ''.'' \<notin> set n"
    using that by (auto simp: displayName_takeWhile stripExtension_def)
  have 2: "displayName (a @ CHR ''.'' # b) = stripExtension (a @ CHR ''.'' # b)"
    if "CHR ''.'' \<notin> set a" and "CHR ''.'' \<notin> set b"
    using that by (auto simp: displayName_takeWhile stripExtension_one_dot takeWhile_append)
  from 1 2 displayName_takeWhile show ?thesis by blast
qed

lemma displayName_single_dot_example:
  "displayName ''grid.png'' = ''grid'' \<and> stripExtension ''grid.png'' = ''grid''"
  using displayName_single_dot [of "''grid.png''" "''grid''" "''png''"]
  by (simp add: stripExtension_def)


section \<open>The archive and what it holds\<close>

text \<open>
  For results with four quadrants and a display name without \<open>/\<close>, the archive is the
  sequence of the entries of the results that show: per result the directory entry
  (none for the empty display name) and the four files, a later result taking the place
  of an earlier one of the same display name.
\<close>

lemma zip_set_left: "k \<in> fst ` set A \<Longrightarrow> zip_set k v (A @ B) = zip_set k v A @ B"
  by (induction A) force+

lemma zip_set_right: "k \<notin> fst ` set A \<Longrightarrow> zip_set k v (A @ B) = A @ zip_set k v B"
  by (induction A) auto

lemma show_nat_1234:
  "show_nat (Suc 0) = ''1''" "show_nat (Suc (Suc 0)) = ''2''"
  "show_nat (Suc (Suc (Suc 0))) = ''3''" "show_nat (Suc (Suc (Suc (Suc 0)))) = ''4''"
  by (simp_all add: show_nat_digit digit_char_def)

lemma wellFormed_quadrants:
  "wellFormed r \<Longrightarrow> quadrants r = [quadrants r ! 0, quadrants r ! 1, quadrants r ! 2, quadrants r ! 3]"
  by (cases "quadrants r" rule: list.exhaust; simp add: wellFormed_def)
     (auto simp: length_Suc_conv numeral_eq_Suc)

lemma takeWhile_slash: "CHR ''/'' \<notin> set nm \<Longrightarrow> takeWhile (\<lambda>c. c \<noteq> CHR ''/'') (nm @ CHR ''/'' # rest) = nm"
  by (induction nm) auto

lemma dirOf_in_folder: "CHR ''/'' \<notin> set nm \<Longrightarrow> dirOf (nm @ CHR ''/'' # rest) = nm"
  by (simp add: dirOf_def takeWhile_slash)

lemma itemEntries_wellFormed:
  assumes "wellFormed r"
  shows "itemEntries d r =
    (if originalName r = [] then [] else [(originalName r @ ''/'', Dir)]) @
    [(folderPath (originalName r) @ originalName r @ ''_quad_1.png'', FileEntry (d (quadrants r ! 0))),
     (folderPath (originalName r) @ originalName r @ ''_quad_2.png'', FileEntry (d (quadrants r ! 1))),
     (folderPath (originalName r) @ originalName r @ ''_quad_3.png'', FileEntry (d (quadrants r ! 2))),
     (folderPath (originalName r) @ originalName r @ ''_quad_4.png'', FileEntry (d (quadrants r ! 3)))]"
proof -
  obtain a b c e where q: "quadrants r = [a, b, c, e]"
    using wellFormed_quadrants [OF assms] by blast
  show ?thesis
    by (simp add: itemEntries_def q enumerate_eq_zip upt_rec quadPath_def show_nat_1234)
qed

lemma zipFiles_itemEntries:
  assumes "wellFormed r"
  shows "zipFiles (itemEntries d r) =
    [(folderPath (originalName r) @ originalName r @ ''_quad_1.png'', FileEntry (d (quadrants r ! 0))),
     (folderPath (originalName r) @ originalName r @ ''_quad_2.png'', FileEntry (d (quadrants r ! 1))),
     (folderPath (originalName r) @ originalName r @ ''_quad_3.png'', FileEntry (d (quadrants r ! 2))),
     (folderPath (originalName r) @ originalName r @ ''_quad_4.png'', FileEntry (d (quadrants r ! 3)))]"
  by (simp add: zipFiles_def itemEntries_wellFormed [OF assms])

lemma name_last: "nm \<noteq> [] \<Longrightarrow> CHR ''/'' \<notin> set nm \<Longrightarrow> last nm \<noteq> CHR ''/''"
  using last_in_set [of nm] by metis

lemma addItem_ops:
  assumes "wellFormed r"
  shows "addItem d fs r =
    zip_set (folderPath (originalName r) @ originalName r @ ''_quad_4.png'') (FileEntry (d (quadrants r ! 3)))
     (zip_set (folderPath (originalName r) @ originalName r @ ''_quad_3.png'') (FileEntry (d (quadrants r ! 2)))
      (zip_set (folderPath (originalName r) @ originalName r @ ''_quad_2.png'') (FileEntry (d (quadrants r ! 1)))
       (zip_set (folderPath (originalName r) @ originalName r @ ''_quad_1.png'') (FileEntry (d (quadrants r ! 0)))
         (if originalName r = [] \<or> originalName r @ ''/'' \<in> fst ` set fs then fs
          else zip_set (originalName r @ ''/'') Dir fs))))"
proof -
  obtain a b c e where q: "quadrants r = [a, b, c, e]"
    using wellFormed_quadrants [OF assms] by blast
  have sl: "CHR ''/'' \<notin> set (originalName r)" using assms by (simp add: wellFormed_def)
  show ?thesis
  proof (cases "originalName r = []")
    case True
    then show ?thesis
      by (simp add: addItem_def zip_folder_def addQuadrants_def zip_file_def folderPath_def
            q enumerate_eq_zip upt_rec show_nat_1234)
  next
    case False
    with name_last [OF False sl] show ?thesis
      by (simp add: addItem_def zip_folder_def folderAdd_def addQuadrants_def zip_file_def
            folderPath_def q enumerate_eq_zip upt_rec show_nat_1234 Let_def)
  qed
qed

lemma addItem_empty: "wellFormed r \<Longrightarrow> addItem d [] r = itemEntries d r"
  by (simp add: addItem_ops itemEntries_wellFormed folderPath_def)

lemma addItem_same:
  assumes "wellFormed r" and "wellFormed x" and "originalName x = originalName r"
  shows "addItem d (itemEntries d x @ B) r = itemEntries d r @ B"
  using assms(3)
  by (cases "originalName r = []")
     (simp_all add: addItem_ops [OF assms(1)] itemEntries_wellFormed [OF assms(1)]
        itemEntries_wellFormed [OF assms(2)] folderPath_def)

lemma itemEntries_keys:
  assumes "wellFormed r" and "k \<in> fst ` set (itemEntries d r)"
  shows "dirOf k = originalName r"
proof (cases "originalName r = []")
  case True
  with assms(2) show ?thesis
    by (auto simp: itemEntries_wellFormed [OF assms(1)] folderPath_def dirOf_def)
next
  case False
  have sl: "CHR ''/'' \<notin> set (originalName r)" using assms(1) by (simp add: wellFormed_def)
  from assms(2) False obtain rest where "k = originalName r @ CHR ''/'' # rest"
    by (auto simp: itemEntries_wellFormed [OF assms(1)] folderPath_def)
  then show ?thesis using dirOf_in_folder [OF sl] by simp
qed

lemma addItem_skip:
  assumes "wellFormed r"
    and "\<forall>k \<in> fst ` set A. dirOf k \<noteq> originalName r"
  shows "addItem d (A @ B) r = A @ addItem d B r"
proof -
  let ?nm = "originalName r"
  have out: "p \<notin> fst ` set A" if "p \<in> fst ` set (itemEntries d r)" for p
    using itemEntries_keys [OF assms(1) that] assms(2) by blast
  have o1: "folderPath ?nm @ ?nm @ ''_quad_1.png'' \<notin> fst ` set A"
    by (rule out) (simp add: itemEntries_wellFormed [OF assms(1)])
  have o2: "folderPath ?nm @ ?nm @ ''_quad_2.png'' \<notin> fst ` set A"
    by (rule out) (simp add: itemEntries_wellFormed [OF assms(1)])
  have o3: "folderPath ?nm @ ?nm @ ''_quad_3.png'' \<notin> fst ` set A"
    by (rule out) (simp add: itemEntries_wellFormed [OF assms(1)])
  have o4: "folderPath ?nm @ ?nm @ ''_quad_4.png'' \<notin> fst ` set A"
    by (rule out) (simp add: itemEntries_wellFormed [OF assms(1)])
  have o0: "?nm @ ''/'' \<notin> fst ` set A" if "?nm \<noteq> []"
    by (rule out) (simp add: itemEntries_wellFormed [OF assms(1)] that)
  have first: "(if ?nm = [] \<or> ?nm @ ''/'' \<in> fst ` set (A @ B) then A @ B
                else zip_set (?nm @ ''/'') Dir (A @ B)) =
               A @ (if ?nm = [] \<or> ?nm @ ''/'' \<in> fst ` set B then B
                    else zip_set (?nm @ ''/'') Dir B)"
    using o0 by (auto simp: zip_set_right)
  show ?thesis
    unfolding addItem_ops [OF assms(1)] first
    by (simp only: zip_set_right [OF o1] zip_set_right [OF o2] zip_set_right [OF o3]
          zip_set_right [OF o4])
qed

lemma addItem_blocks:
  assumes "wellFormed r" and "\<forall>x \<in> set bs. wellFormed x"
  shows "addItem d (concat (map (itemEntries d) bs)) r = concat (map (itemEntries d) (putItem r bs))"
  using assms(2)
proof (induction bs)
  case Nil
  show ?case using assms(1) by (simp add: addItem_empty)
next
  case (Cons x xs)
  then have wx: "wellFormed x" and wxs: "\<forall>y \<in> set xs. wellFormed y" by simp_all
  show ?case
  proof (cases "originalName x = originalName r")
    case True
    then show ?thesis using addItem_same [OF assms(1) wx True] by simp
  next
    case False
    have "\<forall>k \<in> fst ` set (itemEntries d x). dirOf k \<noteq> originalName r"
      using itemEntries_keys [OF wx] False by metis
    from addItem_skip [OF assms(1) this] Cons.IH [OF wxs] False show ?thesis by simp
  qed
qed

lemma putItem_set: "set (putItem r bs) \<subseteq> insert r (set bs)"
  by (induction bs) auto



lemma putItem_names:
  "originalName ` set (putItem r bs) = insert (originalName r) (originalName ` set bs)"
  by (induction bs) auto

lemma putItem_distinct:
  "distinct (map originalName bs) \<Longrightarrow> distinct (map originalName (putItem r bs))"
  by (induction bs) (auto simp: putItem_names)

lemma putItem_new: "originalName r \<notin> originalName ` set bs \<Longrightarrow> putItem r bs = bs @ [r]"
  by (induction bs) auto

lemma foldl_putItem_set: "set (foldl (\<lambda>bs r. putItem r bs) bs L) \<subseteq> set bs \<union> set L"
proof (induction L arbitrary: bs)
  case Nil
  show ?case by simp
next
  case (Cons r L)
  from Cons [of "putItem r bs"] putItem_set [of r bs] show ?case by auto
qed

lemma foldl_putItem_names:
  "originalName ` set (foldl (\<lambda>bs r. putItem r bs) bs L) = originalName ` set bs \<union> originalName ` set L"
  by (induction L arbitrary: bs) (auto simp: putItem_names)

lemma foldl_putItem_distinct:
  "distinct (map originalName bs) \<Longrightarrow> distinct (map originalName (foldl (\<lambda>bs r. putItem r bs) bs L))"
  by (induction L arbitrary: bs) (auto simp: putItem_distinct)


lemma foldl_putItem_new:
  "distinct (map originalName (bs @ L)) \<Longrightarrow> foldl (\<lambda>bs r. putItem r bs) bs L = bs @ L"
proof (induction L arbitrary: bs)
  case Nil
  show ?case by simp
next
  case (Cons r L)
  from Cons.prems have "originalName r \<notin> originalName ` set bs" by auto
  then have p: "putItem r bs = bs @ [r]" by (rule putItem_new)
  from Cons.prems have "distinct (map originalName ((bs @ [r]) @ L))" by simp
  from Cons.IH [OF this] p show ?case by simp
qed

lemma shownItems_subset: "set (shownItems L) \<subseteq> set L"
  using foldl_putItem_set [of "[]" L] by (simp add: shownItems_def)

lemma shownItems_names: "originalName ` set (shownItems L) = originalName ` set L"
  using foldl_putItem_names [of "[]" L] by (simp add: shownItems_def)

lemma shownItems_distinct: "distinct (map originalName (shownItems L))"
  using foldl_putItem_distinct [of "[]" L] by (simp add: shownItems_def)

lemma shownItems_length: "length (shownItems L) = card (originalName ` set L)"
proof -
  have "length (shownItems L) = length (map originalName (shownItems L))" by simp
  also have "\<dots> = card (set (map originalName (shownItems L)))"
    using shownItems_distinct by (rule distinct_card [symmetric])
  also have "\<dots> = card (originalName ` set L)" by (simp add: shownItems_names)
  finally show ?thesis .
qed

lemma shownItems_all: "distinct (map originalName L) \<Longrightarrow> shownItems L = L"
  using foldl_putItem_new [of "[]" L] by (simp add: shownItems_def)


lemma foldl_addItem_blocks:
  assumes "\<forall>x \<in> set bs. wellFormed x" and "\<forall>x \<in> set L. wellFormed x"
  shows "foldl (addItem d) (concat (map (itemEntries d) bs)) L =
         concat (map (itemEntries d) (foldl (\<lambda>bs r. putItem r bs) bs L))"
  using assms
proof (induction L arbitrary: bs)
  case Nil
  show ?case by simp
next
  case (Cons r L)
  then have wr: "wellFormed r" and wL: "\<forall>x \<in> set L. wellFormed x" by simp_all
  have wp: "\<forall>x \<in> set (putItem r bs). wellFormed x"
    using putItem_set [of r bs] wr Cons.prems(1) by auto
  from Cons.IH [OF wp wL] addItem_blocks [OF wr Cons.prems(1), of d] show ?case by simp
qed

lemma buildZip_shown:
  "\<forall>x \<in> set L. wellFormed x \<Longrightarrow> buildZip d L = concat (map (itemEntries d) (shownItems L))"
  using foldl_addItem_blocks [of "[]" L d] by (simp add: buildZip_def shownItems_def)


lemma zipFiles_blocks:
  "zipFiles (concat (map (itemEntries d) bs)) = concat (map (\<lambda>x. zipFiles (itemEntries d x)) bs)"
  by (induction bs) (simp_all add: zipFiles_def)

lemma zipFiles_blocks_length:
  assumes "\<forall>x \<in> set bs. wellFormed x"
  shows "length (zipFiles (concat (map (itemEntries d) bs))) = 4 * length bs"
  unfolding zipFiles_blocks using assms
  by (induction bs) (simp_all add: zipFiles_itemEntries)

lemma zipFiles_blocks_content:
  assumes "e \<in> set (zipFiles (concat (map (itemEntries d) bs)))"
  shows "\<exists>x \<in> set bs. \<exists>q \<in> set (quadrants x). snd e = FileEntry (d q)"
proof -
  from assms obtain x where x: "x \<in> set bs" and e: "e \<in> set (zipFiles (itemEntries d x))"
    unfolding zipFiles_blocks by auto
  from e have "\<exists>q \<in> set (quadrants x). snd e = FileEntry (d q)"
    by (auto simp: zipFiles_def itemEntries_def in_set_enumerate_eq split: if_splits)
  with x show ?thesis by blast
qed





lemma exItem_wellFormed: "CHR ''/'' \<notin> set n \<Longrightarrow> wellFormed (exItem i n)"
  by (simp add: wellFormed_def exItem_def)

lemma exItem_name: "originalName (exItem i n) = n"
  by (simp add: exItem_def)

lemma shown_wellFormed:
  "\<forall>x \<in> set L. wellFormed x \<Longrightarrow> \<forall>x \<in> set (shownItems L). wellFormed x"
  using shownItems_subset [of L] by auto


lemma files_of_archive:
  assumes "\<forall>x \<in> set L. wellFormed x"
  shows "length (zipFiles (buildZip d L)) = 4 * card (originalName ` set L)"
  by (simp add: buildZip_shown [OF assms] zipFiles_blocks_length [OF shown_wellFormed [OF assms]]
        shownItems_length)





lemma show_nat_0_8: "show_nat 0 = ''0''" "show_nat 8 = ''8''"
  by (simp_all add: show_nat_digit digit_char_def)

lemma empty_name_archive:
  "buildZip exBlob [exItem i []] =
     [(''_quad_1.png'', FileEntry (exBlob (i @ ''1''))), (''_quad_2.png'', FileEntry (exBlob (i @ ''2''))),
      (''_quad_3.png'', FileEntry (exBlob (i @ ''3''))), (''_quad_4.png'', FileEntry (exBlob (i @ ''4'')))]"
proof -
  have w: "wellFormed (exItem i [])" by (simp add: exItem_wellFormed)
  have "buildZip exBlob [exItem i []] = itemEntries exBlob (exItem i [])"
    by (simp add: buildZip_def addItem_empty [OF w])
  also have "\<dots> = [(''_quad_1.png'', FileEntry (exBlob (quadrants (exItem i []) ! 0))),
      (''_quad_2.png'', FileEntry (exBlob (quadrants (exItem i []) ! 1))),
      (''_quad_3.png'', FileEntry (exBlob (quadrants (exItem i []) ! 2))),
      (''_quad_4.png'', FileEntry (exBlob (quadrants (exItem i []) ! 3)))]"
    by (simp add: itemEntries_wellFormed [OF w] folderPath_def exItem_name)
  finally show ?thesis by (simp add: exItem_def)
qed

lemma displayName_dotfile: "displayName (CHR ''.'' # n) = []"
  by (simp add: displayName_takeWhile)

section \<open>Claims about the Batch Runner\<close>

text \<open>
  Claim C8. Invoking \<open>processImages\<close> on an empty input list is a no-op: no setter is
  called, so the run state, the progress counter and the processed results stay as they
  were (whatever they were), and the run state makes no transition.
\<close>

theorem C8_empty_batch_noop:
  "files s = [] \<Longrightarrow>
   processImages split rnd s = [] \<and> runBatch split rnd s = s
   \<and> transitions s (processImages split rnd s) = []"
  by (simp add: processImages_def runBatch_def applyEffects_def)

theorem C8_empty_batch_noop_witness:
  "files (\<lparr>files = [], processed = [], status = COMPLETED, progress = 100\<rparr>) = []
   \<and> runBatch exSplit exRnd \<lparr>files = [], processed = [], status = COMPLETED, progress = 100\<rparr>
       = \<lparr>files = [], processed = [], status = COMPLETED, progress = 100\<rparr>"
  using C8_empty_batch_noop [of "\<lparr>files = [], processed = [], status = COMPLETED, progress = 100\<rparr>" exSplit exRnd]
  by simp

text \<open>
  Claim C7, as stated, fails for a run that does not start in Idle. After a first run
  the state is Completed and the files are still there; the button then reads
  \<open>Process Again\<close>, and \<open>processImages\<close> sets Processing with no reset to Idle. The second
  run goes from Completed to Processing and back to Completed.
\<close>

theorem C7_rerun_starts_from_completed:
  "status (runBatch exSplit exRnd (exState [exGood ''a.png''])) = COMPLETED
   \<and> files (runBatch exSplit exRnd (exState [exGood ''a.png''])) = [exGood ''a.png'']
   \<and> transitions (runBatch exSplit exRnd (exState [exGood ''a.png'']))
        (processImages exSplit exRnd (runBatch exSplit exRnd (exState [exGood ''a.png''])))
      = [(COMPLETED, PROCESSING), (PROCESSING, COMPLETED)]"
proof -
  let ?s0 = "exState [exGood ''a.png'']"
  let ?s1 = "runBatch exSplit exRnd ?s0"
  have ne0: "files ?s0 \<noteq> []" by (simp add: exState_def)
  have st: "status ?s1 = COMPLETED" using ne0 by (rule runBatch_eq(2))
  have fs: "files ?s1 = [exGood ''a.png'']" using runBatch_eq(3) [OF ne0] by (simp add: exState_def)
  then have ne1: "files ?s1 \<noteq> []" by simp
  have "transitions ?s1 (processImages exSplit exRnd ?s1)
        = [(COMPLETED, PROCESSING), (PROCESSING, COMPLETED)]"
    using processImages_transitions [OF ne1, of exSplit exRnd] st by simp
  with st fs show ?thesis by blast
qed

text \<open>
  Claim C7, amended. A run over \<open>N > 0\<close> files sets the run state to Processing at the
  start, which is a transition from the state the run starts in (from Idle on a first
  run, from Completed on a run started again, none when the state is Processing
  already), and to Completed at the end; these are all its transitions. The effects of
  a run are the three opening setter calls, then one effect per image in input order
  (the progress update when the image splits, the logged error when it does not), then
  the two closing setter calls, the last of which sets Completed. The splitter is
  arbitrary: Completed does not mean that every image succeeded.
\<close>

theorem C7_transitions_of_a_run:
  assumes "files s \<noteq> []"
  shows "transitions s (processImages split rnd s) =
           (if status s = PROCESSING then [] else [(status s, PROCESSING)])
           @ [(PROCESSING, COMPLETED)]
    \<and> length (processImages split rnd s) = length (files s) + 5
    \<and> take 3 (processImages split rnd s) = [SetStatus PROCESSING, SetProcessed [], SetProgress 0]
    \<and> (\<forall>i < length (files s).
          processImages split rnd s ! (3 + i) =
            (case split (files s ! i) of
               Inr quads \<Rightarrow> SetProgress (progressOf i (length (files s)))
             | Inl error \<Rightarrow> ConsoleError error))
    \<and> drop (length (files s) + 3) (processImages split rnd s) =
         [SetProcessed (processed (runBatch split rnd s)), SetStatus COMPLETED]
    \<and> status (runBatch split rnd s) = COMPLETED"
proof -
  let ?n = "length (files s)"
  let ?pre = "[SetStatus PROCESSING, SetProcessed [], SetProgress 0]"
  let ?tr = "effectsOf split ?n 0 (files s)"
  let ?post = "[SetProcessed (resultsOf split rnd 0 (files s)), SetStatus COMPLETED]"
  have eq: "processImages split rnd s = ?pre @ ?tr @ ?post"
    using assms by (rule processImages_eq)
  have len: "length ?tr = ?n" by (rule effectsOf_length)
  have rs: "processed (runBatch split rnd s) = resultsOf split rnd 0 (files s)"
    using assms by (rule runBatch_eq(1))
  have 1: "transitions s (processImages split rnd s) =
           (if status s = PROCESSING then [] else [(status s, PROCESSING)])
           @ [(PROCESSING, COMPLETED)]"
    using assms by (rule processImages_transitions)
  have 2: "length (processImages split rnd s) = ?n + 5" by (simp add: eq len)
  have 3: "take 3 (processImages split rnd s) = ?pre" by (simp add: eq)
  have 4: "processImages split rnd s ! (3 + i) =
            (case split (files s ! i) of
               Inr quads \<Rightarrow> SetProgress (progressOf i ?n)
             | Inl error \<Rightarrow> ConsoleError error)" if "i < ?n" for i
  proof -
    have "processImages split rnd s ! (3 + i) = ?tr ! i"
      using that by (simp add: eq nth_append len)
    also have "\<dots> = (case split (files s ! i) of
               Inr quads \<Rightarrow> SetProgress (progressOf i ?n)
             | Inl error \<Rightarrow> ConsoleError error)"
      using that by (simp add: effectsOf_nth split: sum.splits)
    finally show ?thesis .
  qed
  have "drop (?n + 3) (?pre @ ?tr @ ?post) = ?post" using len by (simp add: numeral_3_eq_3)
  then have 5: "drop (?n + 3) (processImages split rnd s) =
         [SetProcessed (processed (runBatch split rnd s)), SetStatus COMPLETED]"
    by (simp only: eq rs)
  have 6: "status (runBatch split rnd s) = COMPLETED" using assms by (rule runBatch_eq(2))
  from 1 2 3 4 5 6 show ?thesis by blast
qed

theorem C7_transitions_of_a_run_witness:
  "files (exState [exGood ''a.png'', exBad ''b.png'']) \<noteq> []
   \<and> transitions (exState [exGood ''a.png'', exBad ''b.png''])
        (processImages exSplit exRnd (exState [exGood ''a.png'', exBad ''b.png'']))
      = [(IDLE, PROCESSING), (PROCESSING, COMPLETED)]
   \<and> length (processImages exSplit exRnd (exState [exGood ''a.png'', exBad ''b.png''])) = 7"
proof -
  let ?s = "exState [exGood ''a.png'', exBad ''b.png'']"
  have a: "files ?s \<noteq> []" by (simp add: exState_def)
  have b: "status ?s = IDLE" and c: "length (files ?s) = 2" by (simp_all add: exState_def)
  from C7_transitions_of_a_run [OF a, of exSplit exRnd] a b c show ?thesis by simp
qed


text \<open>
  Claim C3. If exactly the image at index \<open>k\<close> fails to split, the error is caught and
  logged (it is the effect of iteration \<open>k\<close>), the loop goes on, the run ends in
  Completed, and the result list has \<open>N - 1\<close> entries: one for every image except image
  \<open>k\<close>, in input order, each with the display name and the quadrants of its image. The
  model returns its effects for every input: no exception escapes.
\<close>

theorem C3_one_failure_is_skipped:
  assumes "k < length (files s)"
    and "\<forall>i < length (files s). isl (split (files s ! i)) \<longleftrightarrow> i = k"
  shows "length (processed (runBatch split rnd s)) = length (files s) - 1
    \<and> map originalName (processed (runBatch split rnd s)) =
        map (\<lambda>f. displayName (name f)) (take k (files s) @ drop (Suc k) (files s))
    \<and> map quadrants (processed (runBatch split rnd s)) =
        map (\<lambda>f. projr (split f)) (take k (files s) @ drop (Suc k) (files s))
    \<and> processImages split rnd s ! (3 + k) = ConsoleError (projl (split (files s ! k)))
    \<and> status (runBatch split rnd s) = COMPLETED"
proof -
  let ?fs = "files s"
  let ?ok = "take k ?fs @ drop (Suc k) ?fs"
  let ?rs = "processed (runBatch split rnd s)"
  from assms(1) have ne: "?fs \<noteq> []" by auto
  have rs: "?rs = resultsOf split rnd 0 ?fs" using ne by (rule runBatch_eq(1))
  have "filter (\<lambda>f. \<not> isl (split f)) ?fs = ?ok"
    using assms by (intro filter_all_but_one) auto
  with resultsOf_filter [of split rnd 0 ?fs]
  have pairs: "map (\<lambda>r. (originalName r, quadrants r)) ?rs =
               map (\<lambda>f. (displayName (name f), projr (split f))) ?ok"
    by (simp only: rs)
  have names: "map originalName ?rs = map (\<lambda>f. displayName (name f)) ?ok"
  proof -
    have "map originalName ?rs = map fst (map (\<lambda>r. (originalName r, quadrants r)) ?rs)"
      by simp
    also have "\<dots> = map fst (map (\<lambda>f. (displayName (name f), projr (split f))) ?ok)"
      by (simp only: pairs)
    finally show ?thesis by simp
  qed
  have quads: "map quadrants ?rs = map (\<lambda>f. projr (split f)) ?ok"
  proof -
    have "map quadrants ?rs = map snd (map (\<lambda>r. (originalName r, quadrants r)) ?rs)"
      by simp
    also have "\<dots> = map snd (map (\<lambda>f. (displayName (name f), projr (split f))) ?ok)"
      by (simp only: pairs)
    finally show ?thesis by simp
  qed
  have "length ?rs = length (map originalName ?rs)" by simp
  also have "\<dots> = length ?ok" by (simp only: names length_map)
  also have "\<dots> = length ?fs - 1" using assms(1) by simp
  finally have len: "length ?rs = length ?fs - 1" .
  from assms have "isl (split (?fs ! k))" by simp
  then obtain e where e: "split (?fs ! k) = Inl e" by (cases "split (?fs ! k)") auto
  have "processImages split rnd s ! (3 + k) = effectsOf split (length ?fs) 0 ?fs ! k"
    using assms(1) by (simp add: processImages_eq [OF ne] nth_append effectsOf_length)
  also have "\<dots> = ConsoleError (projl (split (?fs ! k)))"
    using assms(1) e by (simp add: effectsOf_nth)
  finally have logged: "processImages split rnd s ! (3 + k) = ConsoleError (projl (split (?fs ! k)))" .
  have "status (runBatch split rnd s) = COMPLETED" using ne by (rule runBatch_eq(2))
  with len names quads logged show ?thesis by blast
qed

theorem C3_one_failure_is_skipped_witness:
  "(1::nat) < length (files (exState [exGood ''a.png'', exBad ''b.png'', exGood ''c.png'']))
   \<and> map (\<lambda>f. isl (exSplit f)) (files (exState [exGood ''a.png'', exBad ''b.png'', exGood ''c.png'']))
      = [False, True, False]
   \<and> map originalName
        (processed (runBatch exSplit exRnd (exState [exGood ''a.png'', exBad ''b.png'', exGood ''c.png''])))
      = [''a'', ''c'']"
proof -
  let ?s = "exState [exGood ''a.png'', exBad ''b.png'', exGood ''c.png'']"
  have a: "(1::nat) < length (files ?s)" by (simp add: exState_def)
  have b: "\<forall>i < length (files ?s). isl (exSplit (files ?s ! i)) \<longleftrightarrow> i = 1"
    by (simp add: exState_def exSplit_simps less_Suc_eq numeral_3_eq_3)
  have c: "map (\<lambda>f. displayName (name f)) (take 1 (files ?s) @ drop (Suc 1) (files ?s)) = [''a'', ''c'']"
    by (simp add: exState_def exGood_def displayName_def)
  have d: "map (\<lambda>f. isl (exSplit f)) (files ?s) = [False, True, False]"
    by (simp add: exState_def exSplit_simps)
  from C3_one_failure_is_skipped [OF a b, of exRnd] a c d show ?thesis by simp
qed


text \<open>
  Claim C2. The progress counter is to be updated after every image, failed ones
  included, and to stand at 100 when the loop ends. In the code \<open>setProgress\<close> is the last
  statement of the \<open>try\<close> block; the \<open>catch\<close> block only logs. For the batch of a good
  and then a corrupt image the run ends in Completed with the progress at 50, and for
  a batch of one corrupt image it ends with the progress at 0.
\<close>

theorem C2_progress_stalls_on_failure:
  "progress (runBatch exSplit exRnd (exState [exGood ''a.png'', exBad ''b.png''])) = 50
   \<and> status (runBatch exSplit exRnd (exState [exGood ''a.png'', exBad ''b.png''])) = COMPLETED
   \<and> progress (runBatch exSplit exRnd (exState [exBad ''b.png''])) = 0"
proof -
  have a: "files (exState [exGood ''a.png'', exBad ''b.png'']) \<noteq> []" by (simp add: exState_def)
  have b: "files (exState [exBad ''b.png'']) \<noteq> []" by (simp add: exState_def)
  have fa: "files (exState [exGood ''a.png'', exBad ''b.png'']) = [exGood ''a.png'', exBad ''b.png'']"
    by (simp add: exState_def)
  have fb: "files (exState [exBad ''b.png'']) = [exBad ''b.png'']"
    by (simp add: exState_def)
  show ?thesis
    unfolding runBatch_def processImages_eq [OF a] processImages_eq [OF b] fa fb
    by (simp add: exSplit_simps applyEffects_def progressOf_0_2' exState_def)
qed

text \<open>
  Claim C5. The display name is to be the file name minus its final extension, also
  for names with more than one dot. \<open>file.name.split('.')[0]\<close> is the part before the
  first dot: for \<open>my.photo.png\<close> it is \<open>my\<close>, while the name minus its extension is
  \<open>my.photo\<close>.
\<close>

theorem C5_display_name_first_dot:
  "displayName ''my.photo.png'' = ''my'' \<and> stripExtension ''my.photo.png'' = ''my.photo''"
  by (simp add: displayName_def stripExtension_def)

text \<open>
  Claim C9, as stated, fails: the identifier is whatever the random expression yields,
  and nothing compares it with the identifiers given before. When the expression
  yields the same string twice, two results of one run share their identifier.
\<close>

theorem C9_equal_draws_equal_ids:
  "\<not> distinct (map id' (processed (runBatch exSplit exRnd (exState [exGood ''a.png'', exGood ''b.png'']))))"
proof -
  have a: "files (exState [exGood ''a.png'', exGood ''b.png'']) \<noteq> []" by (simp add: exState_def)
  show ?thesis
    unfolding runBatch_eq(1) [OF a]
    by (simp add: exState_def exSplit_simps exRnd_def)
qed

text \<open>
  Claim C9, amended. Every result carries a freshly drawn identifier: the \<open>j\<close>-th result
  of a run has the string of the \<open>j\<close>-th evaluation of the random expression. The
  identifiers of a run are pairwise distinct exactly when these draws are.
\<close>

theorem C9_ids_are_the_draws:
  assumes "files s \<noteq> []"
  shows "map id' (processed (runBatch split rnd s)) =
           map rnd [0 ..< length (processed (runBatch split rnd s))]
     \<and> (distinct (map id' (processed (runBatch split rnd s)))
          \<longleftrightarrow> inj_on rnd {..< length (processed (runBatch split rnd s))})"
proof -
  let ?rs = "processed (runBatch split rnd s)"
  have rs: "?rs = resultsOf split rnd 0 (files s)" using assms by (rule runBatch_eq(1))
  have ids: "map id' ?rs = map rnd [0 ..< length ?rs]"
    using resultsOf_ids [of split rnd 0 "files s"] by (simp add: rs)
  have "distinct (map id' ?rs) \<longleftrightarrow> distinct (map rnd [0 ..< length ?rs])"
    by (simp only: ids [symmetric])
  also have "\<dots> \<longleftrightarrow> inj_on rnd {..< length ?rs}"
    by (simp add: distinct_map atLeast0LessThan)
  finally show ?thesis using ids by blast
qed

theorem C9_ids_are_the_draws_witness:
  "files (exState [exGood ''a.png'', exBad ''b.png'', exGood ''c.png'']) \<noteq> []
   \<and> map id' (processed (runBatch exSplit show_nat
         (exState [exGood ''a.png'', exBad ''b.png'', exGood ''c.png''])))
     = [''0'', ''1'']"
proof -
  let ?s = "exState [exGood ''a.png'', exBad ''b.png'', exGood ''c.png'']"
  have a: "files ?s \<noteq> []" by (simp add: exState_def)
  have n: "length (processed (runBatch exSplit show_nat ?s)) = 2"
    unfolding runBatch_eq(1) [OF a] by (simp add: exState_def exSplit_simps)
  have "[0 ..< 2] = [0, Suc 0]" by (simp add: numeral_2_eq_2)
  then have "map show_nat [0 ..< 2] = [''0'', ''1'']"
    by (simp add: show_nat_digit digit_char_def)
  with C9_ids_are_the_draws [OF a, of exSplit show_nat] a n show ?thesis by simp
qed

section \<open>Claims about the Packager\<close>

text \<open>
  Claim C10. Without \<open>window.JSZip\<close>, \<open>downloadZip\<close> shows the alert and returns: the
  only thing it does to the outside is the alert (no archive is built, nothing is
  downloaded), and the state, the processed results included, is as before.
\<close>

theorem C10_no_archive_library:
  "downloadZip False dataURLtoBlob now s = (s, [Alert ''JSZip library not loaded yet. Please refresh.''])
   \<and> processed (fst (downloadZip False dataURLtoBlob now s)) = processed s
   \<and> [d \<leftarrow> snd (downloadZip False dataURLtoBlob now s). d \<noteq> Alert ''JSZip library not loaded yet. Please refresh.''] = []"
  by (simp add: downloadZip_def)


text \<open>
  Claim C4 fails in the code. The directory of a result is named by its display name
  alone: \<open>folder\<close> returns the directory that is there, and \<open>file\<close> replaces the file
  that is there. Two results with the display name \<open>a\<close>, what a run makes of the files
  \<open>a.png\<close> and \<open>a.jpg\<close>, give an archive of one directory and four files, those of the
  later result, where the claim counts two directories and eight files; the label of
  the download button announces eight images for it. A result with the empty display
  name, that of the file \<open>.png\<close>, gets no directory: one result, no directory, four
  files at the root.
\<close>

theorem C4_same_name_one_folder:
  "length (zipFolders (buildZip exBlob [exItem ''x'' ''a'', exItem ''y'' ''a''])) = 1
   \<and> length (zipFiles (buildZip exBlob [exItem ''x'' ''a'', exItem ''y'' ''a''])) = 4
   \<and> length [exItem ''x'' ''a'', exItem ''y'' ''a''] = 2
   \<and> downloadLabel \<lparr>files = [], processed = [exItem ''x'' ''a'', exItem ''y'' ''a''],
                       status = COMPLETED, progress = 100\<rparr> = ''Download ZIP (8 Images)''
   \<and> snd (downloadZip True exBlob 0 \<lparr>files = [], processed = [exItem ''x'' ''a'', exItem ''y'' ''a''],
                                        status = COMPLETED, progress = 100\<rparr>) =
       [Download ''quadsplit_images_0.zip'' (buildZip exBlob [exItem ''x'' ''a'', exItem ''y'' ''a''])]
   \<and> buildZip exBlob [exItem ''x'' ''a'', exItem ''y'' ''a''] =
       [(''a/'', Dir),
        (''a/a_quad_1.png'', FileEntry (exBlob ''y1'')), (''a/a_quad_2.png'', FileEntry (exBlob ''y2'')),
        (''a/a_quad_3.png'', FileEntry (exBlob ''y3'')), (''a/a_quad_4.png'', FileEntry (exBlob ''y4''))]
   \<and> map originalName (processed (runBatch exSplit exRnd (exState [exGood ''a.png'', exGood ''a.jpg'']))) =
       [''a'', ''a'']
   \<and> length (zipFolders (buildZip exBlob [exItem ''z'' (displayName ''.png'')])) = 0
   \<and> length (zipFiles (buildZip exBlob [exItem ''z'' (displayName ''.png'')])) = 4"
proof -
  let ?L = "[exItem ''x'' ''a'', exItem ''y'' ''a'']"
  let ?s = "\<lparr>files = [], processed = ?L, status = COMPLETED, progress = 100\<rparr>"
  have w: "\<forall>x \<in> set ?L. wellFormed x" by (simp add: exItem_wellFormed)
  have sh: "shownItems ?L = [exItem ''y'' ''a'']" by (simp add: shownItems_def exItem_name)
  have w1: "\<forall>x \<in> set [exItem ''y'' ''a'']. wellFormed x" by (simp add: exItem_wellFormed)
  have z: "buildZip exBlob ?L =
       [(''a/'', Dir),
        (''a/a_quad_1.png'', FileEntry (exBlob ''y1'')), (''a/a_quad_2.png'', FileEntry (exBlob ''y2'')),
        (''a/a_quad_3.png'', FileEntry (exBlob ''y3'')), (''a/a_quad_4.png'', FileEntry (exBlob ''y4''))]"
    unfolding buildZip_shown [OF w] sh
    by (simp add: itemEntries_wellFormed [OF exItem_wellFormed] folderPath_def)
       (simp add: exItem_def)
  have 1: "length (zipFolders (buildZip exBlob ?L)) = 1"
    and 2: "length (zipFiles (buildZip exBlob ?L)) = 4"
    unfolding z by (simp_all add: zipFolders_def zipFiles_def)
  have 4: "downloadLabel ?s = ''Download ZIP (8 Images)''"
    by (simp add: downloadLabel_def show_nat_0_8)
  have 5: "snd (downloadZip True exBlob 0 ?s) =
       [Download ''quadsplit_images_0.zip'' (buildZip exBlob ?L)]"
    by (simp add: downloadZip_def show_nat_0_8)
  have "files (exState [exGood ''a.png'', exGood ''a.jpg'']) \<noteq> []" by (simp add: exState_def)
  from runBatch_eq(1) [OF this, of exSplit exRnd]
  have "map (\<lambda>r. (originalName r, quadrants r))
          (processed (runBatch exSplit exRnd (exState [exGood ''a.png'', exGood ''a.jpg'']))) =
        [(''a'', [''q1'', ''q2'', ''q3'', ''q4'']), (''a'', [''q1'', ''q2'', ''q3'', ''q4''])]"
    by (simp add: resultsOf_filter exState_def exSplit_simps displayName_takeWhile)
       (simp add: exGood_def)
  then have "map fst (map (\<lambda>r. (originalName r, quadrants r))
          (processed (runBatch exSplit exRnd (exState [exGood ''a.png'', exGood ''a.jpg''])))) =
        [''a'', ''a'']" by (simp only: list.map fst_conv)
  then have 7: "map originalName (processed (runBatch exSplit exRnd (exState [exGood ''a.png'', exGood ''a.jpg'']))) =
       [''a'', ''a'']" by (simp add: comp_def)
  have 8: "length (zipFolders (buildZip exBlob [exItem ''z'' (displayName ''.png'')])) = 0"
    and 9: "length (zipFiles (buildZip exBlob [exItem ''z'' (displayName ''.png'')])) = 4"
    unfolding displayName_dotfile empty_name_archive by (simp_all add: zipFolders_def zipFiles_def)
  from 1 2 4 5 z 7 8 9 show ?thesis by simp
qed




section \<open>Claims about the Quadrant Splitter\<close>

lemma halves_area:
  fixes W H :: nat
  shows "W div 2 * (H div 2) + (W - W div 2) * (H div 2)
         + W div 2 * (H - H div 2) + (W - W div 2) * (H - H div 2) = W * H"
proof -
  define a b c d where "a = W div 2" and "b = W - W div 2" and "c = H div 2" and "d = H - H div 2"
  have W: "W = a + b" and H: "H = c + d" by (simp_all add: a_def b_def c_def d_def)
  have "a * c + b * c + a * d + b * d = (a + b) * (c + d)" by (simp add: algebra_simps)
  then show ?thesis unfolding a_def [symmetric] b_def [symmetric] c_def [symmetric] d_def [symmetric]
    using W H by simp
qed

lemma covered_once:
  "length (filter (\<lambda>r. inRect r px py) (splitImageIntoFour W H)) = (if px < W \<and> py < H then 1 else 0)"
proof -
  have a: "px < W div 2 \<Longrightarrow> px < W" by arith
  have b: "py < H div 2 \<Longrightarrow> py < H" by arith
  show ?thesis
    using a b by (cases "px < W div 2"; cases "py < H div 2")
      (auto simp: splitImageIntoFour_def inRect_def Let_def)
qed

text \<open>
  Claim C1. For a source image of width \<open>W\<close> and height \<open>H\<close>, both at least 2, the
  splitter yields exactly four crops, in row-major order, with the origins and sizes of
  section 4.1. They tile the image: every pixel of the image lies in exactly one crop
  and no crop reaches outside the image (no gap, no overlap), the areas add up to
  \<open>W * H\<close>, and no crop is empty. Nothing depends on \<open>W\<close> or \<open>H\<close> being even.
\<close>

theorem C1_quadrants_tile_the_image:
  assumes "2 \<le> W" and "2 \<le> H"
  shows "map (\<lambda>r. ((left r, top r), (width r, height r))) (splitImageIntoFour W H) =
           [((0, 0), (W div 2, H div 2)),
            ((W div 2, 0), (W - W div 2, H div 2)),
            ((0, H div 2), (W div 2, H - H div 2)),
            ((W div 2, H div 2), (W - W div 2, H - H div 2))]
    \<and> (\<forall>px py. length (filter (\<lambda>r. inRect r px py) (splitImageIntoFour W H))
                 = (if px < W \<and> py < H then 1 else 0))
    \<and> sum_list (map area (splitImageIntoFour W H)) = W * H
    \<and> list_all (\<lambda>r. 0 < width r \<and> 0 < height r) (splitImageIntoFour W H)"
proof -
  have 1: "map (\<lambda>r. ((left r, top r), (width r, height r))) (splitImageIntoFour W H) =
           [((0, 0), (W div 2, H div 2)),
            ((W div 2, 0), (W - W div 2, H div 2)),
            ((0, H div 2), (W div 2, H - H div 2)),
            ((W div 2, H div 2), (W - W div 2, H - H div 2))]"
    by (simp add: splitImageIntoFour_def Let_def)
  have 3: "sum_list (map area (splitImageIntoFour W H)) = W * H"
    using halves_area [of W H] by (simp add: splitImageIntoFour_def Let_def area_def)
  have 4: "list_all (\<lambda>r. 0 < width r \<and> 0 < height r) (splitImageIntoFour W H)"
    using assms by (simp add: splitImageIntoFour_def Let_def)
  from 1 3 4 covered_once show ?thesis by blast
qed

theorem C1_quadrants_tile_the_image_witness:
  "(2::nat) \<le> 801 \<and> (2::nat) \<le> 601
   \<and> map (\<lambda>r. ((left r, top r), (width r, height r))) (splitImageIntoFour 801 601) =
       [((0, 0), (400, 300)), ((400, 0), (401, 300)), ((0, 300), (400, 301)), ((400, 300), (401, 301))]
   \<and> sum_list (map area (splitImageIntoFour 801 601)) = 801 * 601"
proof -
  have a: "(2::nat) \<le> 801" and b: "(2::nat) \<le> 601" by simp_all
  from C1_quadrants_tile_the_image [OF a b] show ?thesis by simp
qed


end
